theory Spec2Isabelle
  imports
    Complex_Main
    "HOL-Library.AList"
    "HOL-Library.Char_ord"
    "HOL-Library.List_Lexorder"
    "HOL-Library.Product_Lexorder"
begin

section \<open>Special migrations: registry, version gate and the events-sample-by migration\<close>

text \<open>
  The development embeds \<^verbatim>\<open>posthog/special_migrations/manager.py\<close> and the hooks
  \<^verbatim>\<open>healthcheck\<close> and \<^verbatim>\<open>progress\<close> of
  \<^verbatim>\<open>posthog/special_migrations/migrations/events_sample_by_migration.py\<close>.
  Python strings are \<^typ>\<open>string\<close>, ordered lexicographically by character code as
  Python's \<^verbatim>\<open>sorted\<close> orders them.
\<close>

subsection \<open>Errors and return values\<close>

datatype error =
    ImproperlyConfigured string
  | ValueError
  | KeyError
  | IndexError
  | ZeroDivisionError
  | ServerException

text \<open>
  What a call leaves behind: the exception it raised, or the Python value it returned.
  \<^verbatim>\<open>init_special_migrations\<close> is annotated \<^verbatim>\<open>-> None\<close> and has no
  \<^verbatim>\<open>return\<close> statement; a returned list of names would be \<open>Some names\<close>.
\<close>

datatype outcome = Raised error | Returned "string list option"

subsection \<open>Versions\<close>

text \<open>
  \<^verbatim>\<open>semantic_version.Version\<close> is a library class. The model covers release versions
  \<^verbatim>\<open>major.minor.patch\<close>: three numeric identifiers without leading zeros, compared
  lexicographically. Prerelease and build suffixes are not modelled; on such strings (and
  on every string the library rejects) \<open>Version\<close> below is \<open>None\<close>, which stands for the
  library's \<^verbatim>\<open>ValueError\<close>.
\<close>

type_synonym version = "nat \<times> nat \<times> nat"

definition is_digit :: "char \<Rightarrow> bool" where
  "is_digit c = (CHR ''0'' \<le> c \<and> c \<le> CHR ''9'')"

definition digit_value :: "char \<Rightarrow> nat" where
  "digit_value c = of_char c - of_char CHR ''0''"

definition numeric_identifier :: "string \<Rightarrow> nat option" where
  "numeric_identifier s =
     (if s = [] then None
      else if list_all is_digit s \<and> (if hd s = CHR ''0'' then length s = 1 else True)
      then Some (foldl (\<lambda>a c. 10 * a + digit_value c) 0 s)
      else None)"

fun split_on :: "char \<Rightarrow> string \<Rightarrow> string list" where
  "split_on d [] = [[]]"
| "split_on d (c # cs) =
     (if c = d then [] # split_on d cs
      else (case split_on d cs of [] \<Rightarrow> [[c]] | p # ps \<Rightarrow> (c # p) # ps))"

definition Version :: "string \<Rightarrow> version option" where
  "Version s =
     (case map numeric_identifier (split_on CHR ''.'' s) of
        [Some a, Some b, Some c] \<Rightarrow> Some (a, b, c)
      | _ \<Rightarrow> None)"

subsection \<open>Migration definitions and the registry\<close>

text \<open>
  The fields of a \<^verbatim>\<open>Migration\<close> class that the manager reads. The version bounds
  are strings in the source and are parsed where the manager uses them.
\<close>

record special_migration_definition =
  description :: string
  posthog_min_version :: string
  posthog_max_version :: string

text \<open>
  \<^verbatim>\<open>ALL_SPECIAL_MIGRATIONS\<close> is a Python dict from module names to
  \<^verbatim>\<open>Migration\<close> instances: an association list, read with \<^const>\<open>map_of\<close>.
\<close>

type_synonym registry = "(string \<times> special_migration_definition) list"

subsection \<open>The migration record store\<close>

text \<open>
  Modelled from the spec: \<^verbatim>\<open>posthog/models/special_migration.py\<close>, which declares
  the \<^verbatim>\<open>SpecialMigration\<close> model, is not among the sources. The specification's
  Migration Record has a status out of six and a current operation index; the store is
  the table of these rows, in insertion order.
\<close>

datatype migration_status =
    NotStarted | Running | CompletedSuccessfully | Errored | RolledBack | Starting

record special_migration =
  name :: string
  status :: migration_status
  current_operation_index :: int

type_synonym record_store = "special_migration list"

text \<open>
  Modelled from the spec: the defaults of a row that \<^verbatim>\<open>get_or_create\<close> inserts,
  which the missing model declares. The specification creates a \<open>NotStarted\<close> record
  and starts a fresh run at operation index 0.
\<close>

definition new_record :: "string \<Rightarrow> special_migration" where
  "new_record n = \<lparr>name = n, status = NotStarted, current_operation_index = 0\<rparr>"

definition has_record :: "string \<Rightarrow> record_store \<Rightarrow> bool" where
  "has_record n store = list_ex (\<lambda>r. name r = n) store"

text \<open>
  Modelled from the spec: \<^verbatim>\<open>get_all_completed_special_migrations\<close> is defined in
  the missing module. The specification's first step of the gate takes the records whose
  status is \<open>CompletedSuccessfully\<close>.
\<close>

definition get_all_completed_special_migrations :: "record_store \<Rightarrow> special_migration list" where
  "get_all_completed_special_migrations store =
     filter (\<lambda>r. status r = CompletedSuccessfully) store"

text \<open>
  Modelled from the spec: \<^verbatim>\<open>SpecialMigration.objects.get_or_create(name=...)\<close> on
  the missing model: the record of that name is left as it is when there is one, and a
  new record is inserted otherwise. The specification keeps one record per migration
  name, so the lookup never meets two rows.
\<close>

definition get_or_create :: "string \<Rightarrow> record_store \<Rightarrow> record_store" where
  "get_or_create n store = (if has_record n store then store else store @ [new_record n])"

subsection \<open>The version gate\<close>

definition fatal_message :: "string \<Rightarrow> string \<Rightarrow> string" where
  "fatal_message migration_name VERSION =
     ''Migration '' @ migration_name @ '' is required for PostHog versions above ''
       @ VERSION @ ''.''"

fun gate_loop ::
  "version \<Rightarrow> string \<Rightarrow> registry \<Rightarrow> string list \<Rightarrow> record_store \<Rightarrow> outcome \<times> record_store"
where
  "gate_loop pv VERSION reg [] store = (Returned None, store)"
| "gate_loop pv VERSION reg (migration_name # rest) store =
     (case map_of reg migration_name of
        None \<Rightarrow> (Raised KeyError, store)
      | Some migration \<Rightarrow>
         (case Version (posthog_max_version migration) of
            None \<Rightarrow> (Raised ValueError, store)
          | Some mx \<Rightarrow>
             if pv > mx
             then (Raised (ImproperlyConfigured (fatal_message migration_name VERSION)), store)
             else (case Version (posthog_min_version migration) of
                     None \<Rightarrow> (Raised ValueError, store)
                   | Some mn \<Rightarrow>
                      if mn \<le> pv \<and> pv \<le> mx
                      then gate_loop pv VERSION reg rest (get_or_create migration_name store)
                      else gate_loop pv VERSION reg rest store)))"

definition applied_migrations :: "record_store \<Rightarrow> string set" where
  "applied_migrations store = set (map name (get_all_completed_special_migrations store))"

definition unapplied_migrations :: "registry \<Rightarrow> record_store \<Rightarrow> string set" where
  "unapplied_migrations reg store = set (map fst reg) - applied_migrations store"

definition init_special_migrations ::
  "string \<Rightarrow> registry \<Rightarrow> record_store \<Rightarrow> outcome \<times> record_store" where
  "init_special_migrations VERSION reg store =
     (case Version VERSION of
        None \<Rightarrow> (Raised ValueError, store)
      | Some pv \<Rightarrow>
          gate_loop pv VERSION reg (sorted_list_of_set (unapplied_migrations reg store)) store)"

subsection \<open>Hooks of the events-sample-by migration\<close>

text \<open>
  What the queries of \<^verbatim>\<open>healthcheck\<close> and \<^verbatim>\<open>progress\<close> read from ClickHouse:
  the summed bytes of the parts of \<^verbatim>\<open>sharded_events\<close> (zero when there are none), the
  row of \<^verbatim>\<open>system.disks\<close> named \<^verbatim>\<open>default\<close> when there is one, and the row counts
  of the events table and of \<^verbatim>\<open>temp_events\<close>, each \<open>None\<close> when the table does not
  exist. The migration's operation 0 creates \<^verbatim>\<open>temp_events\<close> and its operation 4
  renames it to the events table, so before the one and after the other there is no
  table of that name.
\<close>

record clickhouse_disk =
  free_space :: nat
  total_space :: nat

record clickhouse_state =
  sharded_events_bytes :: nat
  default_disk :: "clickhouse_disk option"
  events_rows :: "nat option"
  temp_events_rows :: "nat option"

text \<open>
  ClickHouse divides two unsigned integers as Float64: a zero divisor gives \<^verbatim>\<open>inf\<close>,
  or \<^verbatim>\<open>nan\<close> for zero by zero. Finite quotients are kept exact here; rounding to
  Float64 is not modelled. Python's \<^verbatim>\<open><\<close> is false on \<^verbatim>\<open>inf\<close> and on
  \<^verbatim>\<open>nan\<close>.
\<close>

datatype float64 = Finite real | Infinity | NaN

definition clickhouse_divide :: "nat \<Rightarrow> nat \<Rightarrow> float64" where
  "clickhouse_divide a b =
     (if b = 0 then (if a = 0 then NaN else Infinity) else Finite (real a / real b))"

fun float_less :: "float64 \<Rightarrow> real \<Rightarrow> bool" where
  "float_less (Finite x) c = (x < c)"
| "float_less Infinity c = False"
| "float_less NaN c = False"

text \<open>
  \<^verbatim>\<open>healthcheck\<close>, lines 87 to 112. \<open>formatReadableSize\<close> is the ClickHouse function
  of that name and is a parameter. An empty join (no disk named \<^verbatim>\<open>default\<close>) makes
  \<^verbatim>\<open>result[0]\<close> raise. In the second query \<^verbatim>\<open>free_space.size\<close> is the column
  \<^verbatim>\<open>total_space as size\<close>.
\<close>

definition healthcheck ::
  "(real \<Rightarrow> string) \<Rightarrow> clickhouse_state \<Rightarrow> error + (bool \<times> string option)" where
  "healthcheck formatReadableSize db =
     (case default_disk db of
        None \<Rightarrow> Inl IndexError
      | Some disk \<Rightarrow>
          let event_size_to_free_space_ratio =
                clickhouse_divide (free_space disk) (sharded_events_bytes db)
          in if float_less event_size_to_free_space_ratio 1.5 then Inr (True, None)
             else
               let required_space =
                     formatReadableSize
                       (real (total_space disk)
                          - (real (free_space disk) - 1.5 * real (sharded_events_bytes db)))
               in Inr (False,
                       Some (''Upgrade your ClickHouse storage to at least ''
                               @ required_space @ ''.'')))"

text \<open>
  Modelled from the spec: \<^verbatim>\<open>sync_execute\<close> of \<^verbatim>\<open>ee/clickhouse/client.py\<close> is not
  among the sources. The specification's store client is \<^verbatim>\<open>execute(command) -> rows\<close>,
  which may raise a query error; counting the rows of a table that does not exist is
  such an error, and the count of an existing table is its single result.
\<close>

definition select_count :: "nat option \<Rightarrow> error + nat" where
  "select_count table = (case table of None \<Rightarrow> Inl ServerException | Some n \<Rightarrow> Inr n)"

text \<open>
  \<^verbatim>\<open>progress\<close>, lines 114 to 121: the temporary table is counted first, then the
  events table. The record argument is not read. Python's \<^verbatim>\<open>/\<close> on integers
  raises on a zero divisor; the quotient is kept exact here.
\<close>

definition progress :: "clickhouse_state \<Rightarrow> special_migration \<Rightarrow> error + real" where
  "progress db record =
     (case select_count (temp_events_rows db) of
        Inl e \<Rightarrow> Inl e
      | Inr total_events_moved \<Rightarrow>
         (case select_count (events_rows db) of
            Inl e \<Rightarrow> Inl e
          | Inr total_events_to_move \<Rightarrow>
              if total_events_to_move = 0 then Inl ZeroDivisionError
              else Inr (100 * (real total_events_moved / real total_events_to_move))))"

subsection \<open>Vocabulary of the properties\<close>

text \<open>Python's \<^verbatim>\<open>sub in s\<close> on strings.\<close>

fun contains :: "string \<Rightarrow> string \<Rightarrow> bool" where
  "contains [] sub = (sub = [])"
| "contains (c # cs) sub = (take (length sub) (c # cs) = sub \<or> contains cs sub)"

text \<open>The rows of the store that carry a given name.\<close>

definition rows_named :: "string \<Rightarrow> record_store \<Rightarrow> special_migration list" where
  "rows_named n store = filter (\<lambda>r. name r = n) store"

text \<open>The store after \<^verbatim>\<open>get_or_create\<close> on each name of a list in turn.\<close>

definition create_all :: "record_store \<Rightarrow> string list \<Rightarrow> record_store" where
  "create_all store ns = foldl (\<lambda>s n. get_or_create n s) store ns"

text \<open>Every version bound of the registry is a version string the library accepts.\<close>

definition well_formed_versions :: "registry \<Rightarrow> bool" where
  "well_formed_versions reg =
     list_all (\<lambda>item. Version (posthog_min_version (snd item)) \<noteq> None
                     \<and> Version (posthog_max_version (snd item)) \<noteq> None) reg"

text \<open>The application version lies in the window of a registered migration, both ends included.\<close>

definition in_window :: "version \<Rightarrow> registry \<Rightarrow> string \<Rightarrow> bool" where
  "in_window pv reg n =
     (case map_of reg n of
        None \<Rightarrow> False
      | Some m \<Rightarrow>
         (case Version (posthog_min_version m) of
            None \<Rightarrow> False
          | Some mn \<Rightarrow>
             (case Version (posthog_max_version m) of
                None \<Rightarrow> False
              | Some mx \<Rightarrow> mn \<le> pv \<and> pv \<le> mx)))"

text \<open>The application version is strictly above the upper bound of a registered migration.\<close>

definition window_exceeded :: "version \<Rightarrow> registry \<Rightarrow> string \<Rightarrow> bool" where
  "window_exceeded pv reg n =
     (case map_of reg n of
        None \<Rightarrow> False
      | Some m \<Rightarrow>
         (case Version (posthog_max_version m) of
            None \<Rightarrow> False
          | Some mx \<Rightarrow> pv > mx))"

text \<open>
  The application version is strictly below the lower bound of a registered migration
  whose window is not empty.
\<close>

definition below_window :: "version \<Rightarrow> registry \<Rightarrow> string \<Rightarrow> bool" where
  "below_window pv reg n =
     (case map_of reg n of
        None \<Rightarrow> False
      | Some m \<Rightarrow>
         (case Version (posthog_min_version m) of
            None \<Rightarrow> False
          | Some mn \<Rightarrow>
             (case Version (posthog_max_version m) of
                None \<Rightarrow> False
              | Some mx \<Rightarrow> pv < mn \<and> mn \<le> mx)))"

text \<open>
  The pending-applicable names as the specification words them: the registered names
  without a completed record whose window holds the application version, sorted by name.
\<close>

definition pending_applicable :: "version \<Rightarrow> registry \<Rightarrow> record_store \<Rightarrow> string list" where
  "pending_applicable pv reg store =
     filter (in_window pv reg) (sorted_list_of_set (unapplied_migrations reg store))"

text \<open>What one iteration of the gate's loop raises, if anything.\<close>

definition step_error :: "version \<Rightarrow> string \<Rightarrow> registry \<Rightarrow> string \<Rightarrow> error option" where
  "step_error pv VERSION reg n =
     (case map_of reg n of
        None \<Rightarrow> Some KeyError
      | Some m \<Rightarrow>
         (case Version (posthog_max_version m) of
            None \<Rightarrow> Some ValueError
          | Some mx \<Rightarrow>
             if pv > mx then Some (ImproperlyConfigured (fatal_message n VERSION))
             else (case Version (posthog_min_version m) of
                     None \<Rightarrow> Some ValueError
                   | Some mn \<Rightarrow> None)))"

subsection \<open>Sample inputs\<close>

text \<open>
  The version window and description of the \<^verbatim>\<open>Migration\<close> class of
  \<^verbatim>\<open>events_sample_by_migration.py\<close>, and the registry holding it under its
  module name.
\<close>

definition events_sample_by :: special_migration_definition where
  "events_sample_by =
     \<lparr>description = ''Events table migration for compatible sample by column.'',
      posthog_min_version = ''1.30.0'',
      posthog_max_version = ''1.31.0''\<rparr>"

definition events_registry :: registry where
  "events_registry = [(''events_sample_by_migration'', events_sample_by)]"

text \<open>A definition with a given window, and registries of such definitions.\<close>

definition with_window :: "string \<Rightarrow> string \<Rightarrow> special_migration_definition" where
  "with_window lo hi =
     \<lparr>description = ''sample'', posthog_min_version = lo, posthog_max_version = hi\<rparr>"

section \<open>The loop of the gate, step by step\<close>

lemma gate_loop_Cons:
  "gate_loop pv V reg (n # ns) store =
     (case step_error pv V reg n of
        Some e \<Rightarrow> (Raised e, store)
      | None \<Rightarrow>
          gate_loop pv V reg ns (if in_window pv reg n then get_or_create n store else store))"
  by (simp add: step_error_def in_window_def split: option.splits)

lemma gate_loop_store:
  "snd (gate_loop pv V reg ns store) =
     create_all store
       (filter (in_window pv reg) (takeWhile (\<lambda>n. step_error pv V reg n = None) ns))"
  by (induction ns arbitrary: store)
     (auto simp: gate_loop_Cons create_all_def simp del: gate_loop.simps(2) split: option.splits)

lemma gate_loop_outcome:
  "fst (gate_loop pv V reg ns store) =
     (case dropWhile (\<lambda>n. step_error pv V reg n = None) ns of
        [] \<Rightarrow> Returned None
      | n # rest \<Rightarrow> Raised (the (step_error pv V reg n)))"
  by (induction ns arbitrary: store)
     (auto simp: gate_loop_Cons simp del: gate_loop.simps(2) split: option.splits)

subsection \<open>Records are only ever appended\<close>

lemma has_record_get_or_create:
  "has_record k (get_or_create n store) = (k = n \<or> has_record k store)"
  by (auto simp: get_or_create_def has_record_def new_record_def list_ex_iff)

lemma get_or_create_present: "has_record n store \<Longrightarrow> get_or_create n store = store"
  by (simp add: get_or_create_def)

lemma has_record_create_all:
  "has_record k (create_all store ns) = (k \<in> set ns \<or> has_record k store)"
  by (induction ns arbitrary: store) (auto simp: create_all_def has_record_get_or_create)

lemma create_all_present: "\<forall>n \<in> set ns. has_record n store \<Longrightarrow> create_all store ns = store"
  by (induction ns arbitrary: store) (auto simp: create_all_def get_or_create_present)

lemma create_all_idem: "create_all (create_all store ns) ns = create_all store ns"
  by (rule create_all_present) (simp add: has_record_create_all)

lemma completed_get_or_create:
  "get_all_completed_special_migrations (get_or_create n store)
     = get_all_completed_special_migrations store"
  by (simp add: get_or_create_def get_all_completed_special_migrations_def new_record_def)

lemma completed_create_all:
  "get_all_completed_special_migrations (create_all store ns)
     = get_all_completed_special_migrations store"
  by (induction ns arbitrary: store) (auto simp: create_all_def completed_get_or_create)

lemma unapplied_create_all:
  "unapplied_migrations reg (create_all store ns) = unapplied_migrations reg store"
  by (simp add: unapplied_migrations_def applied_migrations_def completed_create_all)

lemma create_all_appends:
  "\<exists>new. create_all store ns = store @ new
        \<and> list_all (\<lambda>r. status r = NotStarted) new
        \<and> distinct (map name new)
        \<and> list_all (\<lambda>r. \<not> has_record (name r) store) new
        \<and> set (map name new) \<subseteq> set ns"
proof (induction ns arbitrary: store)
  case Nil
  show ?case by (simp add: create_all_def)
next
  case (Cons n ns)
  show ?case
  proof (cases "has_record n store")
    case True
    then have "create_all store (n # ns) = create_all store ns"
      by (simp add: create_all_def get_or_create_present)
    with Cons.IH [of store] show ?thesis by auto
  next
    case False
    let ?s = "store @ [new_record n]"
    have eq: "create_all store (n # ns) = create_all ?s ns"
      using False by (simp add: create_all_def get_or_create_def)
    obtain new where new: "create_all ?s ns = ?s @ new"
      "list_all (\<lambda>r. status r = NotStarted) new" "distinct (map name new)"
      "list_all (\<lambda>r. \<not> has_record (name r) ?s) new" "set (map name new) \<subseteq> set ns"
      using Cons.IH [of ?s] by blast
    have hs: "\<And>k. has_record k ?s = (k = n \<or> has_record k store)"
      by (auto simp: has_record_def new_record_def list_ex_iff)
    have f: "\<forall>r \<in> set new. name r \<noteq> n \<and> \<not> has_record (name r) store"
      using new(4) by (simp add: hs list_all_iff)
    have nm: "name (new_record n) = n" by (simp add: new_record_def)
    have a: "create_all store (n # ns) = store @ (new_record n # new)"
      using eq new(1) by simp
    have b: "list_all (\<lambda>r. status r = NotStarted) (new_record n # new)"
      using new(2) by (simp add: new_record_def)
    have c: "distinct (map name (new_record n # new))"
      using new(3) f nm by auto
    have d: "list_all (\<lambda>r. \<not> has_record (name r) store) (new_record n # new)"
      using f False nm by (simp add: list_all_iff)
    have e: "set (map name (new_record n # new)) \<subseteq> set (n # ns)"
      using new(5) by (auto simp: new_record_def)
    from a b c d e show ?thesis by blast
  qed
qed

lemma init_twice:
  "init_special_migrations V reg (snd (init_special_migrations V reg store))
     = init_special_migrations V reg store"
proof (cases "Version V")
  case None
  then show ?thesis by (simp add: init_special_migrations_def)
next
  case (Some pv)
  let ?ns = "sorted_list_of_set (unapplied_migrations reg store)"
  let ?cs = "filter (in_window pv reg) (takeWhile (\<lambda>n. step_error pv V reg n = None) ?ns)"
  have s1: "snd (init_special_migrations V reg store) = create_all store ?cs"
    using Some by (simp add: init_special_migrations_def gate_loop_store)
  have "init_special_migrations V reg (create_all store ?cs)
          = gate_loop pv V reg ?ns (create_all store ?cs)"
    using Some by (simp add: init_special_migrations_def unapplied_create_all)
  also have "\<dots> = (fst (gate_loop pv V reg ?ns store), create_all (create_all store ?cs) ?cs)"
    by (rule prod_eqI) (simp_all add: gate_loop_outcome gate_loop_store)
  also have "\<dots> = gate_loop pv V reg ?ns store"
    by (rule prod_eqI) (simp_all add: gate_loop_store create_all_idem)
  finally show ?thesis using s1 Some by (simp add: init_special_migrations_def)
qed

subsection \<open>Messages, candidates and the first failing step\<close>

lemma fatal_message_inj: "fatal_message a V = fatal_message b V \<Longrightarrow> a = b"
  unfolding fatal_message_def by (simp only: same_append_eq append_same_eq)

lemma contains_Nil: "contains s []"
  by (cases s) simp_all

lemma contains_self_prefix: "contains (s @ t) s"
  by (cases s) (simp_all add: contains_Nil)

lemma contains_append: "contains (p @ s @ t) s"
proof (induction p)
  case Nil
  show ?case using contains_self_prefix by simp
next
  case (Cons c p)
  then show ?case by simp
qed

lemma contains_append4: "contains (a @ b @ c @ d @ e) d"
  using contains_append [of "a @ b @ c" d e] by simp

lemma fatal_message_contains_name: "contains (fatal_message n V) n"
  unfolding fatal_message_def by (rule contains_append)

lemma fatal_message_contains_version: "contains (fatal_message n V) V"
  unfolding fatal_message_def by (rule contains_append4)

lemma finite_unapplied: "finite (unapplied_migrations reg store)"
  by (simp add: unapplied_migrations_def)
lemma step_error_fatal:
  "step_error pv V reg n = Some (ImproperlyConfigured msg) \<Longrightarrow>
     msg = fatal_message n V \<and> window_exceeded pv reg n"
  by (auto simp: step_error_def window_exceeded_def split: option.splits if_splits)

lemma step_error_well_formed:
  assumes "well_formed_versions reg" "n \<in> set (map fst reg)"
  shows "step_error pv V reg n =
           (if window_exceeded pv reg n then Some (ImproperlyConfigured (fatal_message n V))
            else None)"
proof -
  have "map_of reg n \<noteq> None" using assms(2) by (simp add: map_of_eq_None_iff)
  then obtain m where m: "map_of reg n = Some m" by blast
  then have "(n, m) \<in> set reg" by (rule map_of_SomeD)
  then have "Version (posthog_min_version m) \<noteq> None \<and> Version (posthog_max_version m) \<noteq> None"
    using assms(1) by (auto simp: well_formed_versions_def list_all_iff)
  then show ?thesis using m
    by (auto simp: step_error_def window_exceeded_def split: option.splits)
qed

lemma raised_fatal_origin:
  assumes "fst (gate_loop pv V reg ns store) = Raised (ImproperlyConfigured msg)"
  shows "\<exists>n rest. dropWhile (\<lambda>n. step_error pv V reg n = None) ns = n # rest
           \<and> msg = fatal_message n V \<and> window_exceeded pv reg n"
proof (cases "dropWhile (\<lambda>n. step_error pv V reg n = None) ns")
  case Nil
  with assms show ?thesis by (simp add: gate_loop_outcome)
next
  case (Cons n rest)
  then have "step_error pv V reg n \<noteq> None"
    by (simp add: dropWhile_eq_Cons_conv)
  then obtain e where e: "step_error pv V reg n = Some e" by blast
  with assms Cons have "e = ImproperlyConfigured msg" by (simp add: gate_loop_outcome)
  with e step_error_fatal Cons show ?thesis by blast
qed


lemma candidates_props:
  "set (sorted_list_of_set (unapplied_migrations reg store)) = unapplied_migrations reg store"
  "sorted (sorted_list_of_set (unapplied_migrations reg store))"
  "distinct (sorted_list_of_set (unapplied_migrations reg store))"
  by (simp_all add: finite_unapplied)

lemma unapplied_registered: "n \<in> unapplied_migrations reg store \<Longrightarrow> n \<in> set (map fst reg)"
  by (simp add: unapplied_migrations_def)

lemma first_failure_least:
  fixes ns :: "string list"
  assumes "sorted ns" "dropWhile P ns = n # rest" "k \<in> set ns" "\<not> P k"
  shows "n \<le> k"
proof -
  have split: "ns = takeWhile P ns @ n # rest"
    using assms(2) by (simp add: dropWhile_eq_Cons_conv)
  have "k \<notin> set (takeWhile P ns)" using assms(4) set_takeWhileD by fastforce
  moreover have "k \<in> set (takeWhile P ns) \<union> set (n # rest)"
    using assms(3) split by (metis set_append)
  ultimately have k: "k \<in> set (n # rest)" by blast
  have "sorted (takeWhile P ns @ n # rest)" using assms(1) split by simp
  then have "sorted (n # rest)" by (simp add: sorted_append)
  with k show ?thesis by auto
qed

lemma before_failure_done:
  fixes ns :: "string list"
  assumes "sorted ns" "dropWhile P ns = n # rest" "k \<in> set ns" "k < n"
  shows "k \<in> set (takeWhile P ns)"
proof (rule ccontr)
  assume a: "k \<notin> set (takeWhile P ns)"
  have split: "ns = takeWhile P ns @ n # rest"
    using assms(2) by (simp add: dropWhile_eq_Cons_conv)
  have "k \<in> set (takeWhile P ns) \<union> set (n # rest)"
    using assms(3) split by (metis set_append)
  with a have k: "k \<in> set (n # rest)" by blast
  have "sorted (takeWhile P ns @ n # rest)" using assms(1) split by simp
  then have "sorted (n # rest)" by (simp add: sorted_append)
  with k have "n \<le> k" by auto
  with assms(4) show False by simp
qed


subsection \<open>Rows by name, skipped steps and reached candidates\<close>

lemma rows_named_create_all:
  "rows_named M (create_all store cs) =
     (if M \<in> set cs \<and> \<not> has_record M store then [new_record M] else rows_named M store)"
proof (induction cs arbitrary: store)
  case Nil
  show ?case by (simp add: create_all_def)
next
  case (Cons c cs)
  have step: "create_all store (c # cs) = create_all (get_or_create c store) cs"
    by (simp add: create_all_def)
  have empty: "\<not> has_record M store \<Longrightarrow> rows_named M store = []"
    by (auto simp: has_record_def rows_named_def list_ex_iff filter_empty_conv)
  have rn: "rows_named M (get_or_create c store) =
      (if c = M \<and> \<not> has_record M store then [new_record M] else rows_named M store)"
    using empty by (auto simp: get_or_create_def rows_named_def new_record_def)
  show ?case
    unfolding step Cons.IH [of "get_or_create c store"]
    using rn empty by (auto simp: has_record_get_or_create)
qed

lemma has_record_rows: "has_record M store = (rows_named M store \<noteq> [])"
  by (auto simp: has_record_def rows_named_def list_ex_iff filter_empty_conv)

lemma gate_loop_delete:
  "M \<notin> set ns \<Longrightarrow>
     gate_loop pv V (AList.delete M reg) ns store = gate_loop pv V reg ns store"
  by (induction ns arbitrary: store) (auto split: option.splits)

lemma gate_loop_skip:
  assumes "step_error pv V reg M = None" "\<not> in_window pv reg M" "distinct ns"
  shows "gate_loop pv V reg (remove1 M ns) store = gate_loop pv V reg ns store"
  using assms(3)
proof (induction ns arbitrary: store)
  case Nil
  show ?case by simp
next
  case (Cons k ns)
  show ?case
  proof (cases "k = M")
    case True
    then show ?thesis using assms(1,2) by (simp add: gate_loop_Cons del: gate_loop.simps(2))
  next
    case False
    then show ?thesis using Cons
      by (simp add: gate_loop_Cons del: gate_loop.simps(2) split: option.splits)
  qed
qed

lemma unapplied_delete:
  "unapplied_migrations (AList.delete M reg) store = unapplied_migrations reg store - {M}"
  by (auto simp: unapplied_migrations_def delete_keys)

lemma init_ignores:
  assumes "\<And>pv. Version VERSION = Some pv \<Longrightarrow> M \<in> unapplied_migrations reg store \<Longrightarrow>
             step_error pv VERSION reg M = None \<and> \<not> in_window pv reg M"
  shows "init_special_migrations VERSION (AList.delete M reg) store
           = init_special_migrations VERSION reg store"
proof (cases "Version VERSION")
  case None
  then show ?thesis by (simp add: init_special_migrations_def)
next
  case (Some pv)
  let ?ns = "sorted_list_of_set (unapplied_migrations reg store)"
  have ns': "sorted_list_of_set (unapplied_migrations (AList.delete M reg) store) = remove1 M ?ns"
    by (simp add: unapplied_delete sorted_list_of_set_remove finite_unapplied)
  have notin: "M \<notin> set (remove1 M ?ns)" by (simp add: candidates_props)
  have "gate_loop pv VERSION reg (remove1 M ?ns) store = gate_loop pv VERSION reg ?ns store"
  proof (cases "M \<in> unapplied_migrations reg store")
    case True
    with assms Some show ?thesis by (simp add: gate_loop_skip candidates_props)
  next
    case False
    then have "M \<notin> set ?ns" by (simp add: candidates_props)
    then show ?thesis by (simp add: remove1_idem)
  qed
  then show ?thesis using Some ns' gate_loop_delete [OF notin]
    by (simp add: init_special_migrations_def)
qed

lemma init_store:
  "Version VERSION = Some pv \<Longrightarrow>
     snd (init_special_migrations VERSION reg store) =
       create_all store (filter (in_window pv reg)
         (takeWhile (\<lambda>n. step_error pv VERSION reg n = None)
            (sorted_list_of_set (unapplied_migrations reg store))))"
  by (simp add: init_special_migrations_def gate_loop_store)

lemma init_rows_unchanged:
  assumes "\<And>pv. Version VERSION = Some pv \<Longrightarrow> M \<in> unapplied_migrations reg store \<Longrightarrow>
             \<not> in_window pv reg M"
  shows "rows_named M (snd (init_special_migrations VERSION reg store)) = rows_named M store"
proof (cases "Version VERSION")
  case None
  then show ?thesis by (simp add: init_special_migrations_def)
next
  case (Some pv)
  let ?cs = "filter (in_window pv reg)
         (takeWhile (\<lambda>n. step_error pv VERSION reg n = None)
            (sorted_list_of_set (unapplied_migrations reg store)))"
  have "M \<notin> set ?cs"
  proof
    assume "M \<in> set ?cs"
    then have "in_window pv reg M"
      and "M \<in> set (takeWhile (\<lambda>n. step_error pv VERSION reg n = None)
            (sorted_list_of_set (unapplied_migrations reg store)))" by simp_all
    then have "in_window pv reg M" "M \<in> unapplied_migrations reg store"
      using set_takeWhileD candidates_props(1) by fast+
    with assms Some show False by blast
  qed
  then have "rows_named M (create_all store ?cs) = rows_named M store"
    by (simp only: rows_named_create_all simp_thms if_False)
  then show ?thesis by (simp only: init_store [OF Some])
qed

lemma init_not_fatal_for:
  assumes "\<And>pv. Version VERSION = Some pv \<Longrightarrow> M \<in> unapplied_migrations reg store \<Longrightarrow>
             \<not> window_exceeded pv reg M"
  shows "fst (init_special_migrations VERSION reg store)
           \<noteq> Raised (ImproperlyConfigured (fatal_message M VERSION))"
proof
  assume a: "fst (init_special_migrations VERSION reg store)
           = Raised (ImproperlyConfigured (fatal_message M VERSION))"
  then obtain pv where pv: "Version VERSION = Some pv"
    by (cases "Version VERSION") (simp_all add: init_special_migrations_def)
  let ?ns = "sorted_list_of_set (unapplied_migrations reg store)"
  have "fst (gate_loop pv VERSION reg ?ns store)
          = Raised (ImproperlyConfigured (fatal_message M VERSION))"
    using a pv by (simp add: init_special_migrations_def)
  then obtain n rest where n: "dropWhile (\<lambda>n. step_error pv VERSION reg n = None) ?ns = n # rest"
      "fatal_message M VERSION = fatal_message n VERSION" "window_exceeded pv reg n"
    using raised_fatal_origin by blast
  have nM: "n = M" using n(2) fatal_message_inj by blast
  have "n \<in> set (dropWhile (\<lambda>n. step_error pv VERSION reg n = None) ?ns)"
    using n(1) by simp
  then have "n \<in> set ?ns" by (rule set_dropWhileD)
  then have "M \<in> unapplied_migrations reg store" using nM by (simp add: candidates_props)
  with assms pv n(3) nM show False by blast
qed

lemma in_window_not_exceeded: "in_window pv reg M \<Longrightarrow> \<not> window_exceeded pv reg M"
  by (auto simp: in_window_def window_exceeded_def split: option.splits)

lemma below_window_step:
  assumes "below_window pv reg M"
  shows "step_error pv V reg M = None \<and> \<not> in_window pv reg M \<and> \<not> window_exceeded pv reg M"
proof -
  from assms obtain m where m: "map_of reg M = Some m"
    by (cases "map_of reg M") (simp_all add: below_window_def)
  from assms m obtain mn where mn: "Version (posthog_min_version m) = Some mn"
    by (cases "Version (posthog_min_version m)") (simp_all add: below_window_def)
  from assms m mn obtain mx where mx: "Version (posthog_max_version m) = Some mx"
    by (cases "Version (posthog_max_version m)") (simp_all add: below_window_def)
  from assms m mn mx have o: "pv < mn" "mn \<le> mx" by (simp_all add: below_window_def)
  have "\<not> mx < pv" using o by (meson less_le_trans less_asym)
  moreover have "\<not> mn \<le> pv" using o(1) by (meson leD)
  ultimately show ?thesis using m mn mx
    by (simp add: step_error_def in_window_def window_exceeded_def)
qed

lemma reaches_candidate:
  assumes wf: "well_formed_versions reg"
    and M: "M \<in> unapplied_migrations reg store" "\<not> window_exceeded pv reg M"
    and before: "\<forall>k \<in> unapplied_migrations reg store. k < M \<longrightarrow> \<not> window_exceeded pv reg k"
  shows "M \<in> set (takeWhile (\<lambda>n. step_error pv V reg n = None)
                    (sorted_list_of_set (unapplied_migrations reg store)))"
proof -
  let ?ns = "sorted_list_of_set (unapplied_migrations reg store)"
  let ?P = "\<lambda>n. step_error pv V reg n = None"
  have se: "\<And>k. k \<in> unapplied_migrations reg store \<Longrightarrow>
      step_error pv V reg k =
        (if window_exceeded pv reg k then Some (ImproperlyConfigured (fatal_message k V))
         else None)"
    using step_error_well_formed [OF wf] unapplied_registered by blast
  have Mns: "M \<in> set ?ns" using M(1) by (simp add: candidates_props)
  show ?thesis
  proof (cases "dropWhile ?P ?ns")
    case Nil
    then have "\<forall>x \<in> set ?ns. ?P x" by (simp only: dropWhile_eq_Nil_conv)
    then have tw: "takeWhile ?P ?ns = ?ns" by (simp only: takeWhile_eq_all_conv)
    show ?thesis unfolding tw by (rule Mns)
  next
    case (Cons k rest)
    then have nP: "\<not> ?P k" by (simp add: dropWhile_eq_Cons_conv)
    have "k \<in> set (dropWhile ?P ?ns)" using Cons by simp
    then have "k \<in> set ?ns" by (rule set_dropWhileD)
    then have k: "k \<in> unapplied_migrations reg store" by (simp add: candidates_props)
    with nP se have ex: "window_exceeded pv reg k" by (auto split: if_splits)
    with M(2) have "k \<noteq> M" by blast
    moreover have "\<not> k < M" using before k ex by blast
    ultimately have "M < k" by simp
    with before_failure_done [OF candidates_props(2) Cons Mns] show ?thesis .
  qed
qed

subsection \<open>The hooks\<close>

lemma healthcheck_ok_iff:
  assumes "default_disk db = Some disk"
  shows "healthcheck formatReadableSize db = Inr (True, None) \<longleftrightarrow>
           sharded_events_bytes db \<noteq> 0
           \<and> real (free_space disk) < 1.5 * real (sharded_events_bytes db)"
  using assms
  by (auto simp: healthcheck_def clickhouse_divide_def Let_def field_simps)

lemma progress_missing_table:
  "temp_events_rows db = None \<Longrightarrow> progress db record = Inl ServerException"
  by (simp add: progress_def select_count_def)

section \<open>Properties of the version gate\<close>

text \<open>
  C10. Running \<^verbatim>\<open>init_special_migrations\<close> a second time on the store the first run
  left behind gives the same outcome and the same store. The first run only appends
  rows to the store it was given: the old rows are kept as they are, every new row is
  \<open>NotStarted\<close>, no two new rows share a name and no new row has the name of an old one.
\<close>

theorem init_special_migrations_idempotent:
  "init_special_migrations VERSION reg (snd (init_special_migrations VERSION reg store))
     = init_special_migrations VERSION reg store
   \<and> (\<exists>new. snd (init_special_migrations VERSION reg store) = store @ new
          \<and> list_all (\<lambda>r. status r = NotStarted) new
          \<and> distinct (map name new)
          \<and> list_all (\<lambda>r. \<not> has_record (name r) store) new)"
proof
  show "init_special_migrations VERSION reg (snd (init_special_migrations VERSION reg store))
     = init_special_migrations VERSION reg store" by (rule init_twice)
next
  show "\<exists>new. snd (init_special_migrations VERSION reg store) = store @ new
          \<and> list_all (\<lambda>r. status r = NotStarted) new
          \<and> distinct (map name new)
          \<and> list_all (\<lambda>r. \<not> has_record (name r) store) new"
  proof (cases "Version VERSION")
    case None
    then show ?thesis by (simp add: init_special_migrations_def)
  next
    case (Some pv)
    then have "snd (init_special_migrations VERSION reg store) =
      create_all store (filter (in_window pv reg)
         (takeWhile (\<lambda>n. step_error pv VERSION reg n = None)
            (sorted_list_of_set (unapplied_migrations reg store))))"
      by (simp add: init_special_migrations_def gate_loop_store)
    then show ?thesis using create_all_appends by metis
  qed
qed

text \<open>
  C1, as the code has it. Let the application version parse, let every version bound of
  the registry be well formed, and let \<open>M\<close> be a registered migration without a
  completed record whose upper bound lies strictly below the application version. Then
  \<^verbatim>\<open>init_special_migrations\<close> raises \<^verbatim>\<open>ImproperlyConfigured\<close>, and the
  message names the first such migration in name order: a migration \<open>n \<le> M\<close>, and
  \<open>M\<close> itself when no other one sorts before it.
\<close>

theorem exceeded_window_is_fatal:
  assumes "Version VERSION = Some pv"
    and "well_formed_versions reg"
    and "M \<in> unapplied_migrations reg store"
    and "window_exceeded pv reg M"
  shows "\<exists>n. n \<in> unapplied_migrations reg store
            \<and> window_exceeded pv reg n
            \<and> n \<le> M
            \<and> (\<forall>k \<in> unapplied_migrations reg store. window_exceeded pv reg k \<longrightarrow> n \<le> k)
            \<and> fst (init_special_migrations VERSION reg store)
                 = Raised (ImproperlyConfigured (fatal_message n VERSION))"
proof -
  let ?ns = "sorted_list_of_set (unapplied_migrations reg store)"
  let ?P = "\<lambda>n. step_error pv VERSION reg n = None"
  have se: "\<And>k. k \<in> unapplied_migrations reg store \<Longrightarrow>
      step_error pv VERSION reg k =
        (if window_exceeded pv reg k then Some (ImproperlyConfigured (fatal_message k VERSION))
         else None)"
    using step_error_well_formed [OF assms(2)] unapplied_registered by blast
  have M: "M \<in> set ?ns" "\<not> ?P M"
    using assms(3,4) se by (simp_all add: candidates_props)
  then have "dropWhile ?P ?ns \<noteq> []" by (auto simp: dropWhile_eq_Nil_conv)
  then obtain n rest where d: "dropWhile ?P ?ns = n # rest" by (cases "dropWhile ?P ?ns") auto
  then have "\<not> ?P n" by (simp add: dropWhile_eq_Cons_conv)
  have "n \<in> set (dropWhile ?P ?ns)" using d by simp
  then have "n \<in> set ?ns" by (rule set_dropWhileD)
  then have n: "n \<in> unapplied_migrations reg store" by (simp add: candidates_props)
  with \<open>\<not> ?P n\<close> se have ex: "window_exceeded pv reg n"
    and err: "step_error pv VERSION reg n = Some (ImproperlyConfigured (fatal_message n VERSION))"
    by (auto split: if_splits)
  have least: "\<And>k. k \<in> unapplied_migrations reg store \<Longrightarrow> window_exceeded pv reg k \<Longrightarrow> n \<le> k"
  proof -
    fix k assume k: "k \<in> unapplied_migrations reg store" "window_exceeded pv reg k"
    then have "\<not> ?P k" using se by simp
    moreover have "k \<in> set ?ns" using k(1) by (simp add: candidates_props)
    ultimately show "n \<le> k" using first_failure_least [OF candidates_props(2) d] by blast
  qed
  have "fst (init_special_migrations VERSION reg store)
          = Raised (ImproperlyConfigured (fatal_message n VERSION))"
    using assms(1) d err by (simp add: init_special_migrations_def gate_loop_outcome)
  with n ex least assms(3,4) show ?thesis by blast
qed

theorem exceeded_window_is_fatal_witness:
  "Version ''1.32.0'' = Some (1, 32, 0)
   \<and> well_formed_versions events_registry
   \<and> ''events_sample_by_migration'' \<in> unapplied_migrations events_registry []
   \<and> window_exceeded (1, 32, 0) events_registry ''events_sample_by_migration''
   \<and> (\<exists>n. n \<in> unapplied_migrations events_registry []
          \<and> window_exceeded (1, 32, 0) events_registry n
          \<and> n \<le> ''events_sample_by_migration''
          \<and> (\<forall>k \<in> unapplied_migrations events_registry [].
                 window_exceeded (1, 32, 0) events_registry k \<longrightarrow> n \<le> k)
          \<and> fst (init_special_migrations ''1.32.0'' events_registry [])
               = Raised (ImproperlyConfigured (fatal_message n ''1.32.0'')))"
proof -
  have h1: "Version ''1.32.0'' = Some (1, 32, 0)" by code_simp
  have h2: "well_formed_versions events_registry" by code_simp
  have h3: "''events_sample_by_migration'' \<in> unapplied_migrations events_registry []"
    by code_simp
  have h4: "window_exceeded (1, 32, 0) events_registry ''events_sample_by_migration''"
    by code_simp
  from h1 h2 h3 h4 exceeded_window_is_fatal [OF h1 h2 h3 h4] show ?thesis
    by (intro conjI)
qed

text \<open>
  The claim as stated fails when two incomplete migrations have missed their window:
  the error raised names the first one only.
\<close>

theorem exceeded_window_names_first_only:
  "''0002_second'' \<in> unapplied_migrations
       [(''0001_first'', with_window ''0.9.0'' ''1.0.0''),
        (''0002_second'', with_window ''0.9.0'' ''1.0.0'')] []
   \<and> window_exceeded (2, 0, 0)
       [(''0001_first'', with_window ''0.9.0'' ''1.0.0''),
        (''0002_second'', with_window ''0.9.0'' ''1.0.0'')] ''0002_second''
   \<and> fst (init_special_migrations ''2.0.0''
       [(''0001_first'', with_window ''0.9.0'' ''1.0.0''),
        (''0002_second'', with_window ''0.9.0'' ''1.0.0'')] [])
     = Raised (ImproperlyConfigured
         ''Migration 0001_first is required for PostHog versions above 2.0.0.'')
   \<and> \<not> contains ''Migration 0001_first is required for PostHog versions above 2.0.0.''
          ''0002_second''"
  by code_simp

text \<open>
  C2, as the code has it. Whenever \<^verbatim>\<open>init_special_migrations\<close> raises
  \<^verbatim>\<open>ImproperlyConfigured\<close>, the message is the text
  \<^verbatim>\<open>Migration <name> is required for PostHog versions above <VERSION>.\<close> for an
  incomplete registered migration whose upper bound the application version exceeds:
  it contains the migration's name and the application's own version string
  \<^verbatim>\<open>VERSION\<close>. The upper bound \<^verbatim>\<open>posthog_max_version\<close> is not interpolated.
\<close>

theorem fatal_message_names_running_version:
  assumes "fst (init_special_migrations VERSION reg store) = Raised (ImproperlyConfigured msg)"
  shows "\<exists>M pv. Version VERSION = Some pv
            \<and> M \<in> unapplied_migrations reg store
            \<and> window_exceeded pv reg M
            \<and> msg = ''Migration '' @ M @ '' is required for PostHog versions above '' @ VERSION @ ''.''
            \<and> contains msg M \<and> contains msg VERSION"
proof -
  obtain pv where pv: "Version VERSION = Some pv"
    using assms by (cases "Version VERSION") (simp_all add: init_special_migrations_def)
  let ?ns = "sorted_list_of_set (unapplied_migrations reg store)"
  have "fst (gate_loop pv VERSION reg ?ns store) = Raised (ImproperlyConfigured msg)"
    using assms pv by (simp add: init_special_migrations_def)
  then obtain n rest where n: "dropWhile (\<lambda>n. step_error pv VERSION reg n = None) ?ns = n # rest"
      "msg = fatal_message n VERSION" "window_exceeded pv reg n"
    using raised_fatal_origin by blast
  have "n \<in> set (dropWhile (\<lambda>n. step_error pv VERSION reg n = None) ?ns)"
    using n(1) by simp
  then have "n \<in> set ?ns" by (rule set_dropWhileD)
  then have "n \<in> unapplied_migrations reg store" by (simp add: finite_unapplied)
  moreover have "msg = ''Migration '' @ n @ '' is required for PostHog versions above '' @ VERSION @ ''.''"
    using n(2) by (simp only: fatal_message_def)
  moreover have "contains msg n"
    by (simp only: n(2) fatal_message_contains_name)
  moreover have "contains msg VERSION"
    by (simp only: n(2) fatal_message_contains_version)
  ultimately show ?thesis using pv n(3) by blast
qed

theorem fatal_message_names_running_version_witness:
  "fst (init_special_migrations ''1.32.0'' events_registry
          [new_record ''events_sample_by_migration''])
     = Raised (ImproperlyConfigured
         ''Migration events_sample_by_migration is required for PostHog versions above 1.32.0.'')
   \<and> (\<exists>M pv. Version ''1.32.0'' = Some pv
          \<and> M \<in> unapplied_migrations events_registry
                  [new_record ''events_sample_by_migration'']
          \<and> window_exceeded pv events_registry M
          \<and> ''Migration events_sample_by_migration is required for PostHog versions above 1.32.0.''
               = ''Migration '' @ M @ '' is required for PostHog versions above ''
                   @ ''1.32.0'' @ ''.''
          \<and> contains
               ''Migration events_sample_by_migration is required for PostHog versions above 1.32.0.''
               M
          \<and> contains
               ''Migration events_sample_by_migration is required for PostHog versions above 1.32.0.''
               ''1.32.0'')"
proof -
  have h: "fst (init_special_migrations ''1.32.0'' events_registry
                  [new_record ''events_sample_by_migration''])
     = Raised (ImproperlyConfigured
         ''Migration events_sample_by_migration is required for PostHog versions above 1.32.0.'')"
    by code_simp
  from h fatal_message_names_running_version [OF h] show ?thesis
    by (intro conjI)
qed

text \<open>
  The scenario of the specification: window 1.30.0 to 1.31.0, application version 1.32.0,
  record \<open>NotStarted\<close>. The message raised does not contain \<^verbatim>\<open>1.31.0\<close>.
\<close>

theorem fatal_message_omits_max_version:
  "posthog_max_version events_sample_by = ''1.31.0''
   \<and> fst (init_special_migrations ''1.32.0'' events_registry
            [new_record ''events_sample_by_migration''])
     = Raised (ImproperlyConfigured
         ''Migration events_sample_by_migration is required for PostHog versions above 1.32.0.'')
   \<and> \<not> contains
         ''Migration events_sample_by_migration is required for PostHog versions above 1.32.0.''
         ''1.31.0''"
  by code_simp

text \<open>
  C4, as the code has it. \<^verbatim>\<open>init_special_migrations\<close> returns no value: when it
  returns at all, the value is \<^verbatim>\<open>None\<close>. The pending-applicable names, sorted by
  name and without repetition, are the names it passes to \<^verbatim>\<open>get_or_create\<close>, in
  that order, so the store it leaves is the given store after these calls.
\<close>

theorem gate_returns_none:
  assumes "Version VERSION = Some pv"
    and "fst (init_special_migrations VERSION reg store) = Returned r"
  shows "r = None
       \<and> snd (init_special_migrations VERSION reg store)
           = create_all store (pending_applicable pv reg store)
       \<and> sorted (pending_applicable pv reg store)
       \<and> distinct (pending_applicable pv reg store)
       \<and> set (pending_applicable pv reg store)
           = {n \<in> unapplied_migrations reg store. in_window pv reg n}"
proof -
  let ?ns = "sorted_list_of_set (unapplied_migrations reg store)"
  let ?P = "\<lambda>n. step_error pv VERSION reg n = None"
  have f: "fst (gate_loop pv VERSION reg ?ns store) = Returned r"
    using assms by (simp add: init_special_migrations_def)
  have d: "dropWhile ?P ?ns = []"
  proof (cases "dropWhile ?P ?ns")
    case Nil then show ?thesis .
  next
    case (Cons a list)
    with f show ?thesis by (simp add: gate_loop_outcome)
  qed
  with f have r: "r = None" by (simp add: gate_loop_outcome)
  have "\<forall>x \<in> set ?ns. ?P x" using d by (simp only: dropWhile_eq_Nil_conv)
  then have tw: "takeWhile ?P ?ns = ?ns" by (simp only: takeWhile_eq_all_conv)
  have s: "snd (init_special_migrations VERSION reg store)
           = create_all store (pending_applicable pv reg store)"
    unfolding init_store [OF assms(1)] pending_applicable_def tw ..
  have "sorted (pending_applicable pv reg store)"
    unfolding pending_applicable_def using candidates_props(2) by (rule sorted_wrt_filter)
  moreover have "distinct (pending_applicable pv reg store)"
    unfolding pending_applicable_def using candidates_props(3) by (rule distinct_filter)
  moreover have "set (pending_applicable pv reg store)
           = {n \<in> unapplied_migrations reg store. in_window pv reg n}"
    by (simp add: pending_applicable_def candidates_props)
  ultimately show ?thesis using r s by simp
qed

theorem gate_returns_none_witness:
  "Version ''1.30.5'' = Some (1, 30, 5)
   \<and> fst (init_special_migrations ''1.30.5'' events_registry []) = Returned None
   \<and> (None = (None :: string list option)
       \<and> snd (init_special_migrations ''1.30.5'' events_registry [])
           = create_all [] (pending_applicable (1, 30, 5) events_registry [])
       \<and> sorted (pending_applicable (1, 30, 5) events_registry [])
       \<and> distinct (pending_applicable (1, 30, 5) events_registry [])
       \<and> set (pending_applicable (1, 30, 5) events_registry [])
           = {n \<in> unapplied_migrations events_registry []. in_window (1, 30, 5) events_registry n})"
proof -
  have h1: "Version ''1.30.5'' = Some (1, 30, 5)" by code_simp
  have h2: "fst (init_special_migrations ''1.30.5'' events_registry []) = Returned None"
    by code_simp
  show ?thesis
    by (rule conjI [OF h1 conjI [OF h2 gate_returns_none [OF h1 h2]]])
qed

text \<open>
  With the events migration pending and applicable, the call returns \<^verbatim>\<open>None\<close>, not
  the list of pending names.
\<close>

theorem gate_returns_no_pending_set:
  "pending_applicable (1, 30, 5) events_registry [] = [''events_sample_by_migration'']
   \<and> fst (init_special_migrations ''1.30.5'' events_registry []) = Returned None
   \<and> fst (init_special_migrations ''1.30.5'' events_registry [])
       \<noteq> Returned (Some (pending_applicable (1, 30, 5) events_registry []))"
  by code_simp

text \<open>
  C5. A migration with a \<open>CompletedSuccessfully\<close> record is not among the candidates.
  Whatever the application version and whatever its version bounds, the gate behaves as
  if the registry did not hold it: the outcome and the store are those of the registry
  without it, no fatal error is raised for it, and its rows in the store are untouched.
\<close>

theorem completed_migration_is_excluded:
  assumes "M \<in> applied_migrations store"
  shows "M \<notin> unapplied_migrations reg store
       \<and> init_special_migrations VERSION reg store
           = init_special_migrations VERSION (AList.delete M reg) store
       \<and> fst (init_special_migrations VERSION reg store)
           \<noteq> Raised (ImproperlyConfigured (fatal_message M VERSION))
       \<and> rows_named M (snd (init_special_migrations VERSION reg store)) = rows_named M store"
proof -
  have ex: "M \<notin> unapplied_migrations reg store"
    using assms by (simp add: unapplied_migrations_def)
  then have "init_special_migrations VERSION (AList.delete M reg) store
           = init_special_migrations VERSION reg store"
    by (intro init_ignores) simp
  moreover have "fst (init_special_migrations VERSION reg store)
           \<noteq> Raised (ImproperlyConfigured (fatal_message M VERSION))"
    using ex by (intro init_not_fatal_for) simp
  moreover have "rows_named M (snd (init_special_migrations VERSION reg store)) = rows_named M store"
    using ex by (intro init_rows_unchanged) simp
  ultimately show ?thesis using ex by simp
qed

theorem completed_migration_is_excluded_witness:
  "''events_sample_by_migration''
     \<in> applied_migrations
         [\<lparr>name = ''events_sample_by_migration'', status = CompletedSuccessfully,
           current_operation_index = 6\<rparr>]
   \<and> (''events_sample_by_migration''
        \<notin> unapplied_migrations events_registry
            [\<lparr>name = ''events_sample_by_migration'', status = CompletedSuccessfully,
              current_operation_index = 6\<rparr>]
       \<and> init_special_migrations ''1.32.0'' events_registry
            [\<lparr>name = ''events_sample_by_migration'', status = CompletedSuccessfully,
              current_operation_index = 6\<rparr>]
           = init_special_migrations ''1.32.0''
               (AList.delete ''events_sample_by_migration'' events_registry)
               [\<lparr>name = ''events_sample_by_migration'', status = CompletedSuccessfully,
                 current_operation_index = 6\<rparr>]
       \<and> fst (init_special_migrations ''1.32.0'' events_registry
                 [\<lparr>name = ''events_sample_by_migration'', status = CompletedSuccessfully,
                   current_operation_index = 6\<rparr>])
           \<noteq> Raised (ImproperlyConfigured
                        (fatal_message ''events_sample_by_migration'' ''1.32.0''))
       \<and> rows_named ''events_sample_by_migration''
            (snd (init_special_migrations ''1.32.0'' events_registry
                    [\<lparr>name = ''events_sample_by_migration'', status = CompletedSuccessfully,
                      current_operation_index = 6\<rparr>]))
           = rows_named ''events_sample_by_migration''
               [\<lparr>name = ''events_sample_by_migration'', status = CompletedSuccessfully,
                 current_operation_index = 6\<rparr>])"
proof -
  have h: "''events_sample_by_migration''
     \<in> applied_migrations
         [\<lparr>name = ''events_sample_by_migration'', status = CompletedSuccessfully,
           current_operation_index = 6\<rparr>]"
    by code_simp
  show ?thesis
    by (rule conjI [OF h completed_migration_is_excluded [OF h]])
qed

text \<open>
  C6, as the code has it. Let \<open>M\<close> be a registered migration without a completed record.
  If the application version lies in its window, both ends included, every version bound
  of the registry is well formed and no incomplete migration sorting before \<open>M\<close> has
  missed its window, then \<open>M\<close> is pending-applicable and afterwards the store holds
  for \<open>M\<close> the rows it held before, or one new \<open>NotStarted\<close> row when it held none.
  If the application version lies strictly below the lower bound of a non-empty window,
  \<open>M\<close> is ignored: it is not pending-applicable, its rows are unchanged, no fatal
  error is raised for it, and the gate behaves as on the registry without \<open>M\<close>.
\<close>

theorem window_decides_record:
  assumes "Version VERSION = Some pv"
    and "M \<in> unapplied_migrations reg store"
  shows "(in_window pv reg M \<and> well_formed_versions reg
            \<and> (\<forall>k \<in> unapplied_migrations reg store. k < M \<longrightarrow> \<not> window_exceeded pv reg k)
          \<longrightarrow> M \<in> set (pending_applicable pv reg store)
              \<and> rows_named M (snd (init_special_migrations VERSION reg store))
                  = (if has_record M store then rows_named M store else [new_record M]))
       \<and> (below_window pv reg M
          \<longrightarrow> M \<notin> set (pending_applicable pv reg store)
              \<and> rows_named M (snd (init_special_migrations VERSION reg store))
                  = rows_named M store
              \<and> fst (init_special_migrations VERSION reg store)
                  \<noteq> Raised (ImproperlyConfigured (fatal_message M VERSION))
              \<and> init_special_migrations VERSION reg store
                  = init_special_migrations VERSION (AList.delete M reg) store)"
proof (intro conjI impI)
  assume a: "in_window pv reg M \<and> well_formed_versions reg
            \<and> (\<forall>k \<in> unapplied_migrations reg store. k < M \<longrightarrow> \<not> window_exceeded pv reg k)"
  show "M \<in> set (pending_applicable pv reg store)"
    using a assms(2) by (simp add: pending_applicable_def candidates_props)
  let ?cs = "filter (in_window pv reg)
         (takeWhile (\<lambda>n. step_error pv VERSION reg n = None)
            (sorted_list_of_set (unapplied_migrations reg store)))"
  have "M \<in> set (takeWhile (\<lambda>n. step_error pv VERSION reg n = None)
                    (sorted_list_of_set (unapplied_migrations reg store)))"
    using a assms(2) in_window_not_exceeded by (intro reaches_candidate) blast+
  then have "M \<in> set ?cs" using a by simp
  then show "rows_named M (snd (init_special_migrations VERSION reg store))
                  = (if has_record M store then rows_named M store else [new_record M])"
    unfolding init_store [OF assms(1)] rows_named_create_all by (simp add: has_record_rows)
next
  assume b: "below_window pv reg M"
  have st: "\<And>pv'. Version VERSION = Some pv' \<Longrightarrow>
      step_error pv' VERSION reg M = None \<and> \<not> in_window pv' reg M \<and> \<not> window_exceeded pv' reg M"
    using below_window_step [OF b] assms(1) by simp
  show "M \<notin> set (pending_applicable pv reg store)"
    using st assms(1) by (simp add: pending_applicable_def)
  show "rows_named M (snd (init_special_migrations VERSION reg store)) = rows_named M store"
    using st by (intro init_rows_unchanged) blast
  show "fst (init_special_migrations VERSION reg store)
                  \<noteq> Raised (ImproperlyConfigured (fatal_message M VERSION))"
    using st by (intro init_not_fatal_for) blast
  show "init_special_migrations VERSION reg store
                  = init_special_migrations VERSION (AList.delete M reg) store"
    using st by (intro init_ignores [symmetric]) blast
qed

theorem window_decides_record_witness:
  "(Version ''1.31.0'' = Some (1, 31, 0)
    \<and> ''events_sample_by_migration'' \<in> unapplied_migrations events_registry []
    \<and> in_window (1, 31, 0) events_registry ''events_sample_by_migration''
    \<and> well_formed_versions events_registry
    \<and> {k \<in> unapplied_migrations events_registry [].
          k < ''events_sample_by_migration'' \<and> window_exceeded (1, 31, 0) events_registry k} = {}
    \<and> ''events_sample_by_migration'' \<in> set (pending_applicable (1, 31, 0) events_registry [])
    \<and> rows_named ''events_sample_by_migration''
         (snd (init_special_migrations ''1.31.0'' events_registry []))
        = (if has_record ''events_sample_by_migration'' []
           then rows_named ''events_sample_by_migration'' []
           else [new_record ''events_sample_by_migration'']))
   \<and> (Version ''1.29.0'' = Some (1, 29, 0)
    \<and> below_window (1, 29, 0) events_registry ''events_sample_by_migration''
    \<and> ''events_sample_by_migration'' \<notin> set (pending_applicable (1, 29, 0) events_registry [])
    \<and> rows_named ''events_sample_by_migration''
         (snd (init_special_migrations ''1.29.0'' events_registry []))
        = rows_named ''events_sample_by_migration'' []
    \<and> fst (init_special_migrations ''1.29.0'' events_registry [])
        \<noteq> Raised (ImproperlyConfigured
                    (fatal_message ''events_sample_by_migration'' ''1.29.0''))
    \<and> init_special_migrations ''1.29.0'' events_registry []
        = init_special_migrations ''1.29.0''
            (AList.delete ''events_sample_by_migration'' events_registry) [])"
proof -
  have u: "''events_sample_by_migration'' \<in> unapplied_migrations events_registry []"
    by code_simp
  have v1: "Version ''1.31.0'' = Some (1, 31, 0)" by code_simp
  have a1: "in_window (1, 31, 0) events_registry ''events_sample_by_migration''"
    by code_simp
  have a2: "well_formed_versions events_registry" by code_simp
  have a3: "\<forall>k \<in> unapplied_migrations events_registry [].
          k < ''events_sample_by_migration'' \<longrightarrow> \<not> window_exceeded (1, 31, 0) events_registry k"
    by code_simp
  have v2: "Version ''1.29.0'' = Some (1, 29, 0)" by code_simp
  have b: "below_window (1, 29, 0) events_registry ''events_sample_by_migration''"
    by code_simp
  have first: "''events_sample_by_migration'' \<in> set (pending_applicable (1, 31, 0) events_registry [])
    \<and> rows_named ''events_sample_by_migration''
         (snd (init_special_migrations ''1.31.0'' events_registry []))
        = (if has_record ''events_sample_by_migration'' []
           then rows_named ''events_sample_by_migration'' []
           else [new_record ''events_sample_by_migration''])"
    by (rule window_decides_record [OF v1 u, THEN conjunct1, THEN mp,
              OF conjI [OF a1 conjI [OF a2 a3]]])
  have second: "''events_sample_by_migration'' \<notin> set (pending_applicable (1, 29, 0) events_registry [])
    \<and> rows_named ''events_sample_by_migration''
         (snd (init_special_migrations ''1.29.0'' events_registry []))
        = rows_named ''events_sample_by_migration'' []
    \<and> fst (init_special_migrations ''1.29.0'' events_registry [])
        \<noteq> Raised (ImproperlyConfigured
                    (fatal_message ''events_sample_by_migration'' ''1.29.0''))
    \<and> init_special_migrations ''1.29.0'' events_registry []
        = init_special_migrations ''1.29.0''
            (AList.delete ''events_sample_by_migration'' events_registry) []"
    by (rule window_decides_record [OF v2 u, THEN conjunct2, THEN mp, OF b])
  have a3': "{k \<in> unapplied_migrations events_registry [].
          k < ''events_sample_by_migration'' \<and> window_exceeded (1, 31, 0) events_registry k} = {}"
    using a3 by blast
  show ?thesis
    by (rule conjI [OF conjI [OF v1 conjI [OF u conjI [OF a1 conjI [OF a2 conjI [OF a3' first]]]]]
                      conjI [OF v2 conjI [OF b second]]])
qed

text \<open>
  The claim as stated fails for a migration in its window, at the inclusive upper end,
  when a migration sorting before it has missed its own: the gate raises first and no
  record is created.
\<close>

theorem window_record_not_created_after_raise:
  "''0002_second'' \<in> unapplied_migrations
       [(''0001_first'', with_window ''0.9.0'' ''1.0.0''),
        (''0002_second'', with_window ''1.0.0'' ''2.0.0'')] []
   \<and> in_window (2, 0, 0)
       [(''0001_first'', with_window ''0.9.0'' ''1.0.0''),
        (''0002_second'', with_window ''1.0.0'' ''2.0.0'')] ''0002_second''
   \<and> init_special_migrations ''2.0.0''
       [(''0001_first'', with_window ''0.9.0'' ''1.0.0''),
        (''0002_second'', with_window ''1.0.0'' ''2.0.0'')] []
     = (Raised (ImproperlyConfigured
          ''Migration 0001_first is required for PostHog versions above 2.0.0.''), [])
   \<and> \<not> has_record ''0002_second''
        (snd (init_special_migrations ''2.0.0''
          [(''0001_first'', with_window ''0.9.0'' ''1.0.0''),
           (''0002_second'', with_window ''1.0.0'' ''2.0.0'')] []))"
  by code_simp

text \<open>
  C9. The gate is not atomic. When it raises the fatal error for \<open>M\<close>, every incomplete
  migration that sorts before \<open>M\<close> and holds the application version in its window has
  a record in the store left behind: its old rows, or one new \<open>NotStarted\<close> row. The
  store left behind extends the given one and differs from it when such a row was
  created.
\<close>

theorem raise_keeps_created_records:
  assumes "Version VERSION = Some pv"
    and "fst (init_special_migrations VERSION reg store)
           = Raised (ImproperlyConfigured (fatal_message M VERSION))"
    and "n \<in> unapplied_migrations reg store"
    and "n < M"
    and "in_window pv reg n"
  shows "has_record n (snd (init_special_migrations VERSION reg store))
       \<and> rows_named n (snd (init_special_migrations VERSION reg store))
           = (if has_record n store then rows_named n store else [new_record n])
       \<and> (\<exists>new. snd (init_special_migrations VERSION reg store) = store @ new)
       \<and> (\<not> has_record n store \<longrightarrow> snd (init_special_migrations VERSION reg store) \<noteq> store)"
proof -
  let ?ns = "sorted_list_of_set (unapplied_migrations reg store)"
  let ?P = "\<lambda>n. step_error pv VERSION reg n = None"
  let ?cs = "filter (in_window pv reg) (takeWhile ?P ?ns)"
  let ?s' = "snd (init_special_migrations VERSION reg store)"
  have "fst (gate_loop pv VERSION reg ?ns store)
          = Raised (ImproperlyConfigured (fatal_message M VERSION))"
    using assms(1,2) by (simp add: init_special_migrations_def)
  then obtain k rest where k: "dropWhile ?P ?ns = k # rest"
      "fatal_message M VERSION = fatal_message k VERSION"
    using raised_fatal_origin by blast
  have kM: "k = M" using k(2) fatal_message_inj by blast
  have "n \<in> set ?ns" using assms(3) by (simp add: candidates_props)
  then have "n \<in> set (takeWhile ?P ?ns)"
    using before_failure_done [OF candidates_props(2) k(1)] assms(4) kM by blast
  then have n: "n \<in> set ?cs" using assms(5) by simp
  have s': "?s' = create_all store ?cs" using assms(1) by (rule init_store)
  have rows: "rows_named n ?s' = (if has_record n store then rows_named n store else [new_record n])"
    using n unfolding s' rows_named_create_all by (simp add: has_record_rows)
  have has: "has_record n ?s'" using n unfolding s' by (simp add: has_record_create_all)
  have app: "\<exists>new. ?s' = store @ new" unfolding s' using create_all_appends by blast
  have "\<not> has_record n store \<longrightarrow> ?s' \<noteq> store" using has by auto
  with has rows app show ?thesis by blast
qed

theorem raise_keeps_created_records_witness:
  "Version ''2.0.0'' = Some (2, 0, 0)
   \<and> fst (init_special_migrations ''2.0.0''
            [(''0001_first'', with_window ''1.0.0'' ''2.0.0''),
             (''0002_second'', with_window ''0.9.0'' ''1.0.0'')] [])
       = Raised (ImproperlyConfigured (fatal_message ''0002_second'' ''2.0.0''))
   \<and> ''0001_first'' \<in> unapplied_migrations
            [(''0001_first'', with_window ''1.0.0'' ''2.0.0''),
             (''0002_second'', with_window ''0.9.0'' ''1.0.0'')] []
   \<and> ''0001_first'' < ''0002_second''
   \<and> in_window (2, 0, 0)
            [(''0001_first'', with_window ''1.0.0'' ''2.0.0''),
             (''0002_second'', with_window ''0.9.0'' ''1.0.0'')] ''0001_first''
   \<and> (has_record ''0001_first''
         (snd (init_special_migrations ''2.0.0''
            [(''0001_first'', with_window ''1.0.0'' ''2.0.0''),
             (''0002_second'', with_window ''0.9.0'' ''1.0.0'')] []))
       \<and> rows_named ''0001_first''
         (snd (init_special_migrations ''2.0.0''
            [(''0001_first'', with_window ''1.0.0'' ''2.0.0''),
             (''0002_second'', with_window ''0.9.0'' ''1.0.0'')] []))
           = (if has_record ''0001_first'' [] then rows_named ''0001_first'' []
              else [new_record ''0001_first''])
       \<and> (\<exists>new. snd (init_special_migrations ''2.0.0''
            [(''0001_first'', with_window ''1.0.0'' ''2.0.0''),
             (''0002_second'', with_window ''0.9.0'' ''1.0.0'')] []) = [] @ new)
       \<and> \<not> has_record ''0001_first'' []
       \<and> snd (init_special_migrations ''2.0.0''
              [(''0001_first'', with_window ''1.0.0'' ''2.0.0''),
               (''0002_second'', with_window ''0.9.0'' ''1.0.0'')] []) \<noteq> [])"
proof -
  have h1: "Version ''2.0.0'' = Some (2, 0, 0)" by code_simp
  have h2: "fst (init_special_migrations ''2.0.0''
            [(''0001_first'', with_window ''1.0.0'' ''2.0.0''),
             (''0002_second'', with_window ''0.9.0'' ''1.0.0'')] [])
       = Raised (ImproperlyConfigured (fatal_message ''0002_second'' ''2.0.0''))"
    by code_simp
  have h3: "''0001_first'' \<in> unapplied_migrations
            [(''0001_first'', with_window ''1.0.0'' ''2.0.0''),
             (''0002_second'', with_window ''0.9.0'' ''1.0.0'')] []"
    by code_simp
  have h4: "''0001_first'' < ''0002_second''" by code_simp
  have h5: "in_window (2, 0, 0)
            [(''0001_first'', with_window ''1.0.0'' ''2.0.0''),
             (''0002_second'', with_window ''0.9.0'' ''1.0.0'')] ''0001_first''"
    by code_simp
  have h6: "\<not> has_record ''0001_first'' []" by code_simp
  from h1 h2 h3 h4 h5 h6 raise_keeps_created_records [OF h1 h2 h3 h4 h5]
  show ?thesis by blast
qed

section \<open>Hooks of the events-sample-by migration\<close>

text \<open>
  C3. The claim asks for \<open>ok = True\<close> exactly when the free space is at least 1.5 times
  the size of the events table, as the comment in the source does. The code compares the
  quotient of free space by table size with \<^verbatim>\<open>< 1.5\<close>: with 300 bytes free for a
  table of 100 bytes it reports failure and asks for more storage, and with 100 bytes
  free it reports success.
\<close>

theorem healthcheck_rejects_ample_space:
  "healthcheck formatReadableSize
     \<lparr>sharded_events_bytes = 100,
      default_disk = Some \<lparr>free_space = 300, total_space = 1000\<rparr>,
      events_rows = Some 10, temp_events_rows = None\<rparr>
     = Inr (False,
            Some (''Upgrade your ClickHouse storage to at least ''
                    @ formatReadableSize 850 @ ''.''))
   \<and> healthcheck formatReadableSize
     \<lparr>sharded_events_bytes = 100,
      default_disk = Some \<lparr>free_space = 100, total_space = 1000\<rparr>,
      events_rows = Some 10, temp_events_rows = None\<rparr>
     = Inr (True, None)"
  by (simp add: healthcheck_def clickhouse_divide_def)




end
